theory Spec2Isabelle
  imports Main "HOL-Library.AList"
begin

text \<open>
  The program \<open>code_traverser.py\<close> walks a folder, keeps the files whose path passes
  \<open>valid_filename\<close>, reads each of them as text and writes one document, \<open>prompt.md\<close> by
  default, with a block per file: the path, then the content inside a code fence tagged
  with the file's extension. This theory embeds its five functions together with the
  library operations they call (as CPython has them on a POSIX system), and proves the
  properties stated of them.
\<close>

section \<open>Strings\<close>

text \<open>
  A Python \<open>str\<close> is modelled as a HOL \<open>string\<close>, read as the UTF-8 bytes of the
  text. Every pattern the program searches for (\<open>.\<close>, \<open>/\<close>, the extensions, the excluded
  words) is ASCII, and an ASCII byte never occurs inside a multi-byte UTF-8 sequence, so
  suffix tests, substring tests and index searches agree with those on code points. The
  bytes of a file are a \<open>string\<close> too; \<open>decode\<close> and \<open>encode\<close> below pass between the two.
\<close>

text \<open>\<open>s.startswith(pre)\<close>\<close>

fun startswith :: "string \<Rightarrow> string \<Rightarrow> bool" where
  "startswith s [] = True"
| "startswith [] (p # ps) = False"
| "startswith (c # cs) (p # ps) = (c = p \<and> startswith cs ps)"

text \<open>\<open>s.endswith(suf)\<close>: the last \<open>len(suf)\<close> characters of \<open>s\<close> are \<open>suf\<close>.\<close>

definition endswith :: "string \<Rightarrow> string \<Rightarrow> bool" where
  "endswith s suf = (length suf \<le> length s \<and> drop (length s - length suf) s = suf)"

text \<open>\<open>sub in s\<close>: \<open>sub\<close> occurs at some position of \<open>s\<close>.\<close>

fun contains :: "string \<Rightarrow> string \<Rightarrow> bool" where
  "contains [] sub = (sub = [])"
| "contains (c # cs) sub = (startswith (c # cs) sub \<or> contains cs sub)"

text \<open>
  \<open>s.rfind(c)\<close> for a one-character \<open>c\<close>: the highest index at which \<open>c\<close> stands, and
  \<open>-1\<close> when it stands nowhere. The scan runs left to right and keeps the last index seen.
\<close>

fun rfind_from :: "char \<Rightarrow> string \<Rightarrow> int \<Rightarrow> int \<Rightarrow> int" where
  "rfind_from c [] i found = found"
| "rfind_from c (x # xs) i found = rfind_from c xs (i + 1) (if x = c then i else found)"

definition rfind :: "string \<Rightarrow> char \<Rightarrow> int" where
  "rfind s c = rfind_from c s 0 (- 1)"

text \<open>\<open>s.strip(chars)\<close>: leading and trailing characters that belong to \<open>chars\<close> go.\<close>

definition strip :: "string \<Rightarrow> string \<Rightarrow> string" where
  "strip s chars =
     rev (dropWhile (\<lambda>c. c \<in> set chars) (rev (dropWhile (\<lambda>c. c \<in> set chars) s)))"

abbreviation newline :: char where
  "newline \<equiv> CHR 0x0A"

section \<open>Paths\<close>

text \<open>
  \<open>os.path\<close> is \<open>posixpath\<close>: the separator is \<open>/\<close> and there is no alternative separator.
  \<open>os.path.join(a, b)\<close> with two arguments: an absolute \<open>b\<close> replaces \<open>a\<close>; otherwise
  \<open>b\<close> is appended, after a separator unless \<open>a\<close> is empty or already ends with one.
\<close>

definition join :: "string \<Rightarrow> string \<Rightarrow> string" where
  "join a b =
     (if startswith b ''/'' then b
      else if a = [] \<or> endswith a ''/'' then a @ b
      else a @ ''/'' @ b)"

text \<open>
  \<open>os.path.splitext(p)\<close>. The extension starts at the last dot, provided that dot comes
  after the last separator and some character between the separator and the dot is not a
  dot. The loop below is the library's \<open>while filenameIndex < dotIndex\<close>: it is \<open>True\<close>
  when the library returns from inside the loop, \<open>False\<close> when the loop runs out.
  \<open>p[i:i+1]\<close> is \<open>take 1 (drop i p)\<close>.
\<close>

function splitext_loop :: "string \<Rightarrow> nat \<Rightarrow> nat \<Rightarrow> bool" where
  "splitext_loop p filenameIndex dotIndex =
     (if filenameIndex < dotIndex then
        (if take 1 (drop filenameIndex p) \<noteq> ''.'' then True
         else splitext_loop p (filenameIndex + 1) dotIndex)
      else False)"
  by pat_completeness auto
termination
  by (relation "measure (\<lambda>(p, filenameIndex, dotIndex). dotIndex - filenameIndex)") auto

definition splitext :: "string \<Rightarrow> string \<times> string" where
  "splitext p =
     (let sepIndex = rfind p CHR ''/'';
          dotIndex = rfind p CHR ''.''
      in if dotIndex > sepIndex \<and> splitext_loop p (nat (sepIndex + 1)) (nat dotIndex)
         then (take (nat dotIndex) p, drop (nat dotIndex) p)
         else (p, take 0 p))"

section \<open>The selection predicate\<close>

definition extensions :: "string list" where
  "extensions = [''.jsx'', ''.js'', ''.ts'', ''.tsx'', ''.json'', ''.html'', ''.css'', ''.scss'']"

text \<open>\<open>any(...)\<close> over the generated booleans.\<close>

fun any :: "bool list \<Rightarrow> bool" where
  "any [] = False"
| "any (b # bs) = (b \<or> any bs)"

definition valid_filename :: "string \<Rightarrow> bool" where
  "valid_filename file_name =
     (let flag = any (map (\<lambda>ext. endswith file_name ext) extensions);
          flag = (flag \<and> \<not> contains file_name ''node_modules'');
          flag = (flag \<and> \<not> contains file_name ''package-lock'');
          flag = (flag \<and> \<not> contains file_name ''README'')
      in flag)"

section \<open>The file system and the encodings\<close>

text \<open>
  The program meets its surroundings in three places: \<open>os.walk\<close>, \<open>open(path, 'r')\<close> with
  \<open>read\<close>, and \<open>open(path, 'w')\<close> with \<open>write\<close>. The file system is a directory tree.

  \<^item> \<open>File r w b\<close> is anything that is not a directory: \<open>r\<close> and \<open>w\<close> say whether it may be
    opened for reading and for writing, \<open>b\<close> are its bytes.
  \<^item> \<open>Dir l w es\<close> is a directory with its entries in the order \<open>os.scandir\<close> reports them;
    \<open>l\<close> says whether it may be listed, \<open>w\<close> whether entries may be added. A symbolic
    link to a directory, which \<open>os.walk\<close> names but does not enter, behaves as a directory
    that may not be listed.
  \<^item> \<open>locate\<close> says which object a path string names, as the list of entry names that
    leads to it from the root of the tree. It stands for the operating system's path
    resolution (working directory, \<open>.\<close> and \<open>..\<close>, repeated separators) and is left open:
    every theorem holds for every \<open>locate\<close>.

  The tree does not change under the program's feet: nothing else writes while it runs.
\<close>

datatype py_error = OSError | ValueError | UnicodeDecodeError | UnicodeEncodeError

datatype node =
    File bool bool string
  | Dir bool bool "(string \<times> node) list"

record filesystem =
  root :: node
  locate :: "string \<Rightarrow> string list"

text \<open>
  The encodings of the process, which the program never names and so takes from its
  locale: \<open>fsencodable\<close> says whether a path can be encoded for the operating system;
  \<open>decode\<close> turns the bytes of a file opened in text mode into the text that \<open>read\<close>
  returns, and is \<open>None\<close> where Python raises \<open>UnicodeDecodeError\<close>; \<open>encode\<close> turns the
  text of one call of \<open>write\<close> into bytes, and is \<open>None\<close> where Python raises
  \<open>UnicodeEncodeError\<close>. The translation of line ends belongs to them. The bytes of one
  \<open>write\<close> do not depend on the writes before it (no byte order mark).
\<close>

record encodings =
  fsencodable :: "string \<Rightarrow> bool"
  decode :: "string \<Rightarrow> string option"
  encode :: "string \<Rightarrow> string option"

text \<open>
  A path is turned into bytes before the operating system sees it. A path that cannot be
  encoded raises \<open>UnicodeEncodeError\<close>, a path with a NUL character raises \<open>ValueError\<close>;
  neither is an \<open>OSError\<close>. The paths the program joins from an accepted folder path and
  the names that \<open>os.scandir\<close> reports are accepted as well.
\<close>

definition path_error :: "encodings \<Rightarrow> string \<Rightarrow> py_error option" where
  "path_error enc path =
     (if \<not> fsencodable enc path then Some UnicodeEncodeError
      else if CHR 0x00 \<in> set path then Some ValueError
      else None)"

fun is_dir :: "node \<Rightarrow> bool" where
  "is_dir (Dir l w es) = True"
| "is_dir (File r w b) = False"

fun lookup :: "node \<Rightarrow> string list \<Rightarrow> node option" where
  "lookup n [] = Some n"
| "lookup (File r w b) (c # cs) = None"
| "lookup (Dir l w es) (c # cs) =
     (case map_of es c of None \<Rightarrow> None | Some m \<Rightarrow> lookup m cs)"

definition node_at :: "filesystem \<Rightarrow> string \<Rightarrow> node option" where
  "node_at fs path = lookup (root fs) (locate fs path)"

text \<open>
  Replacing all the bytes of the file at an address. An existing file keeps its place
  among the entries and its permissions; a missing one is created as the last entry of
  its directory, which must exist and admit new entries, and may then be read and written
  (the usual file mode). A directory cannot be written, and nothing lies below a file.
\<close>

fun store :: "node \<Rightarrow> string list \<Rightarrow> string \<Rightarrow> py_error + node" where
  "store (File r w b) [] bytes = (if w then Inr (File r w bytes) else Inl OSError)"
| "store (Dir l w es) [] bytes = Inl OSError"
| "store (File r w b) (c # cs) bytes = Inl OSError"
| "store (Dir l w es) (c # cs) bytes =
     (case map_of es c of
        None \<Rightarrow>
          if cs = [] \<and> w then Inr (Dir l w (AList.update c (File True True bytes) es))
          else Inl OSError
      | Some m \<Rightarrow>
          (case store m cs bytes of
             Inl e \<Rightarrow> Inl e
           | Inr m' \<Rightarrow> Inr (Dir l w (AList.update c m' es))))"

definition write_bytes :: "filesystem \<Rightarrow> string \<Rightarrow> string \<Rightarrow> py_error + filesystem" where
  "write_bytes fs path bytes =
     (case store (root fs) (locate fs path) bytes of
        Inl e \<Rightarrow> Inl e
      | Inr r \<Rightarrow> Inr (fs\<lparr>root := r\<rparr>))"

text \<open>\<open>open(path, 'w')\<close>: the file is created, or cut to length zero, at once.\<close>

definition open_w :: "encodings \<Rightarrow> filesystem \<Rightarrow> string \<Rightarrow> py_error + filesystem" where
  "open_w enc fs path =
     (case path_error enc path of
        Some e \<Rightarrow> Inl e
      | None \<Rightarrow> write_bytes fs path [])"

text \<open>
  \<open>os.walk(topdir)\<close> with its defaults (top down, no error handler, links not followed).
  A directory that cannot be listed, and a \<open>topdir\<close> that is missing or is not a
  directory, make \<open>os.scandir\<close> raise \<open>OSError\<close>; with no \<open>onerror\<close> handler \<open>os.walk\<close>
  drops that exception and yields nothing for that directory. Each triple holds the path
  of a directory, the names of its subdirectories and its other entries; the other
  entries come with their node, which is what opening their joined path reaches.
\<close>

fun walk :: "string \<Rightarrow> node \<Rightarrow> (string \<times> string list \<times> (string \<times> node) list) list" where
  "walk topdir (File r w b) = []"
| "walk topdir (Dir l w es) =
     (if l then
        (topdir, map fst (filter (\<lambda>e. is_dir (snd e)) es), filter (\<lambda>e. \<not> is_dir (snd e)) es)
        # concat (map (\<lambda>(dirname, sub). walk (join topdir dirname) sub)
                   (filter (\<lambda>e. is_dir (snd e)) es))
      else [])"

text \<open>
  \<open>os.walk\<close> catches \<open>OSError\<close> only: the exception of a \<open>topdir\<close> that cannot be handed
  to the operating system leaves the generator at its first step.
\<close>

definition os_walk ::
  "encodings \<Rightarrow> filesystem \<Rightarrow> string
     \<Rightarrow> py_error + (string \<times> string list \<times> (string \<times> node) list) list" where
  "os_walk enc fs topdir =
     (case path_error enc topdir of
        Some e \<Rightarrow> Inl e
      | None \<Rightarrow> Inr (case node_at fs topdir of None \<Rightarrow> [] | Some n \<Rightarrow> walk topdir n))"

text \<open>
  Entry names as a file system has them: not empty and without a separator.
\<close>

fun wf_node :: "node \<Rightarrow> bool" where
  "wf_node (File r w b) = True"
| "wf_node (Dir l w es) = (\<forall>e \<in> set es. fst e \<noteq> [] \<and> CHR ''/'' \<notin> set (fst e) \<and> wf_node (snd e))"

section \<open>The program\<close>

text \<open>
  The progress messages on standard output are not part of the model. An exception is a
  result \<open>Inl e\<close>; a function that changes the file system returns the new one.
\<close>

text \<open>
  \<open>get_file_content\<close>, on the node that \<open>file_path\<close> names: \<open>open\<close> fails on a file that
  may not be read, \<open>read\<close> on bytes that are not text.
\<close>

fun get_file_content :: "encodings \<Rightarrow> node \<Rightarrow> py_error + string" where
  "get_file_content enc (File r w b) =
     (if r then (case decode enc b of None \<Rightarrow> Inl UnicodeDecodeError | Some content \<Rightarrow> Inr content)
      else Inl OSError)"
| "get_file_content enc (Dir l w es) = Inl OSError"

text \<open>The inner loop of \<open>extract_file_details\<close>, over the files of one directory.\<close>

fun extract_files ::
  "encodings \<Rightarrow> string \<Rightarrow> (string \<times> node) list \<Rightarrow> (string \<times> string) list
     \<Rightarrow> py_error + (string \<times> string) list" where
  "extract_files enc rootdir [] file_details = Inr file_details"
| "extract_files enc rootdir ((file_name, f) # files) file_details =
     (let file_path = join rootdir file_name in
      if valid_filename file_path then
        (case get_file_content enc f of
           Inl e \<Rightarrow> Inl e
         | Inr content \<Rightarrow> extract_files enc rootdir files (file_details @ [(file_path, content)]))
      else extract_files enc rootdir files file_details)"

text \<open>The outer loop, over the triples of \<open>os.walk\<close>.\<close>

fun extract_dirs ::
  "encodings \<Rightarrow> (string \<times> string list \<times> (string \<times> node) list) list \<Rightarrow> (string \<times> string) list
     \<Rightarrow> py_error + (string \<times> string) list" where
  "extract_dirs enc [] file_details = Inr file_details"
| "extract_dirs enc ((rootdir, dirs, files) # rest) file_details =
     (case extract_files enc rootdir files file_details of
        Inl e \<Rightarrow> Inl e
      | Inr file_details' \<Rightarrow> extract_dirs enc rest file_details')"

definition extract_file_details ::
  "encodings \<Rightarrow> filesystem \<Rightarrow> string \<Rightarrow> py_error + (string \<times> string) list" where
  "extract_file_details enc fs folder_path =
     (case os_walk enc fs folder_path of
        Inl e \<Rightarrow> Inl e
      | Inr triples \<Rightarrow> extract_dirs enc triples [])"

text \<open>The f-string of \<open>write_to_file\<close>.\<close>

definition format_record :: "string \<Rightarrow> string \<Rightarrow> string \<Rightarrow> string" where
  "format_record file_name ext details =
     ''filename: `'' @ file_name @ ''`'' @ [newline] @ ''```'' @ ext @ [newline]
       @ details @ ''```'' @ [newline]"

text \<open>
  The loop of \<open>write_to_file\<close>, seen from the text: \<open>written\<close> is the text that the calls of
  \<open>file.write\<close> have been given so far.
\<close>

fun write_records :: "string \<Rightarrow> (string \<times> string) list \<Rightarrow> string" where
  "write_records written [] = written"
| "write_records written ((file_name, details) # file_details) =
     (let ext = strip (snd (splitext file_name)) ''.''
      in write_records (written @ format_record file_name ext details) file_details)"

text \<open>
  The same loop with the file object as it is: \<open>file.write\<close> encodes the text it is given
  and adds the bytes to those of the file, or raises \<open>UnicodeEncodeError\<close> and adds
  nothing, which ends the loop. The result is the bytes written and the exception, if any.
\<close>

fun write_loop ::
  "encodings \<Rightarrow> string \<Rightarrow> (string \<times> string) list \<Rightarrow> string \<times> py_error option" where
  "write_loop enc bytes [] = (bytes, None)"
| "write_loop enc bytes ((file_name, details) # file_details) =
     (let ext = strip (snd (splitext file_name)) ''.''
      in case encode enc (format_record file_name ext details) of
           None \<Rightarrow> (bytes, Some UnicodeEncodeError)
         | Some b \<Rightarrow> write_loop enc (bytes @ b) file_details)"

text \<open>
  \<open>write_to_file\<close>: the output file is opened for writing, which empties it; the loop
  writes; the \<open>with\<close> block closes the file on the way out, also when the loop raised, and
  the bytes written so far are its content.
\<close>

definition write_to_file ::
  "encodings \<Rightarrow> filesystem \<Rightarrow> (string \<times> string) list \<Rightarrow> string
     \<Rightarrow> (py_error + unit) \<times> filesystem" where
  "write_to_file enc fs file_details output_file =
     (case open_w enc fs output_file of
        Inl e \<Rightarrow> (Inl e, fs)
      | Inr opened \<Rightarrow>
          (case write_loop enc [] file_details of
             (bytes, raised) \<Rightarrow>
               (case write_bytes opened output_file bytes of
                  Inl e \<Rightarrow> (Inl e, opened)
                | Inr fs' \<Rightarrow> (case raised of None \<Rightarrow> Inr () | Some e \<Rightarrow> Inl e, fs'))))"

text \<open>\<open>create_prompt_file\<close>; the source's default for \<open>output_file\<close> is \<open>prompt.md\<close>.\<close>

definition create_prompt_file ::
  "encodings \<Rightarrow> filesystem \<Rightarrow> string \<Rightarrow> string \<Rightarrow> (py_error + unit) \<times> filesystem" where
  "create_prompt_file enc fs folder_path output_file =
     (case extract_file_details enc fs folder_path of
        Inl e \<Rightarrow> (Inl e, fs)
      | Inr file_details \<Rightarrow> write_to_file enc fs file_details output_file)"

section \<open>Notions used in the statements\<close>

text \<open>
  The files a traversal of \<open>folder_path\<close> comes by, in order, each with the path the
  program forms for it.
\<close>

definition walked ::
  "(string \<times> string list \<times> (string \<times> node) list) list \<Rightarrow> (string \<times> node) list" where
  "walked triples =
     concat (map (\<lambda>(rootdir, dirs, files). map (\<lambda>(file_name, f). (join rootdir file_name, f)) files)
       triples)"

definition walked_files :: "encodings \<Rightarrow> filesystem \<Rightarrow> string \<Rightarrow> (string \<times> node) list" where
  "walked_files enc fs folder_path =
     (case os_walk enc fs folder_path of Inl e \<Rightarrow> [] | Inr triples \<Rightarrow> walked triples)"

text \<open>
  The two loops of \<open>extract_file_details\<close> as one pass over the walked files; the
  lemmas below show that the loops compute it.
\<close>

fun gather ::
  "encodings \<Rightarrow> (string \<times> node) list \<Rightarrow> (string \<times> string) list
     \<Rightarrow> py_error + (string \<times> string) list" where
  "gather enc [] file_details = Inr file_details"
| "gather enc ((file_path, f) # rest) file_details =
     (if valid_filename file_path then
        (case get_file_content enc f of
           Inl e \<Rightarrow> Inl e
         | Inr content \<Rightarrow> gather enc rest (file_details @ [(file_path, content)]))
      else gather enc rest file_details)"

text \<open>A path is listable when it names a directory that may be listed.\<close>

definition listable :: "filesystem \<Rightarrow> string \<Rightarrow> bool" where
  "listable fs path = (case node_at fs path of Some (Dir l w es) \<Rightarrow> l | _ \<Rightarrow> False)"

text \<open>The bytes of the file a path names, when it names a file.\<close>

definition bytes_at :: "filesystem \<Rightarrow> string \<Rightarrow> string option" where
  "bytes_at fs path =
     (case node_at fs path of
        Some (File r w b) \<Rightarrow> Some b
      | _ \<Rightarrow> None)"

text \<open>
  The block of one record in the words of the specification: \<open>filename:\<close> and the path
  between backticks, a newline, the opening fence with the extension without its leading
  dot, a newline, the content with the closing fence right behind it, a newline.
\<close>

definition spec_block :: "string \<times> string \<Rightarrow> string" where
  "spec_block record =
     (case record of (path, content) \<Rightarrow>
        ''filename: `'' @ path @ ''`'' @ [newline]
          @ ''```'' @ drop 1 (snd (splitext path)) @ [newline]
          @ content @ ''```'' @ [newline])"



text \<open>
  For the examples: a path resolved from the root by its components, empty components
  and \<open>.\<close> left out; encodings that pass every byte through except \<open>0xFF\<close>, which is
  neither text nor encodable; and a small tree.
\<close>

fun split_slash :: "string \<Rightarrow> string \<Rightarrow> string list" where
  "split_slash current [] = [current]"
| "split_slash current (c # cs) =
     (if c = CHR ''/'' then current # split_slash [] cs else split_slash (current @ [c]) cs)"

definition components :: "string \<Rightarrow> string list" where
  "components path = filter (\<lambda>c. c \<noteq> [] \<and> c \<noteq> ''.'') (split_slash [] path)"

definition example_enc :: encodings where
  "example_enc =
     \<lparr>fsencodable = (\<lambda>path. True),
      decode = (\<lambda>b. if CHR 0xFF \<in> set b then None else Some b),
      encode = (\<lambda>s. if CHR 0xFF \<in> set s then None else Some s)\<rparr>"

definition example_fs :: filesystem where
  "example_fs =
     \<lparr>root = Dir True True
        [(''src'', Dir True True
           [(''x.ts'', File True True ''let a=1;''),
            (''node_modules'', Dir True True [(''y.js'', File True True ''y'')]),
            (''package-lock.json'', File True True ''{}''),
            (''bad.js'', File True True [CHR 0xFF])]),
         (''styles'', Dir True True [(''.css'', File True True ''body{}'')]),
         (''locked'', Dir False True [(''z.js'', File True True ''z'')]),
         (''README-app'', Dir True True [(''index.js'', File True True ''run()'')]),
         (''d'', Dir True True [(''a.js'', File True True ''x'')]),
         (''empty'', Dir True True [])],
      locate = components\<rparr>"

section \<open>Facts about the string operations\<close>

lemma startswith_iff: "startswith s pre \<longleftrightarrow> (\<exists>rest. s = pre @ rest)"
  by (induction s pre rule: startswith.induct) auto

lemma endswith_iff: "endswith s suf \<longleftrightarrow> (\<exists>pre. s = pre @ suf)"
proof
  assume "endswith s suf"
  then have "s = take (length s - length suf) s @ suf"
    by (metis append_take_drop_id endswith_def)
  then show "\<exists>pre. s = pre @ suf" ..
next
  assume "\<exists>pre. s = pre @ suf"
  then show "endswith s suf"
    by (auto simp: endswith_def)
qed

lemma contains_iff: "contains s sub \<longleftrightarrow> (\<exists>before after. s = before @ sub @ after)"
proof (induction s)
  case Nil
  show ?case by auto
next
  case (Cons c cs)
  show ?case
  proof
    assume "contains (c # cs) sub"
    then consider "startswith (c # cs) sub" | "contains cs sub" by auto
    then show "\<exists>before after. c # cs = before @ sub @ after"
    proof cases
      case 1
      then obtain rest where "c # cs = sub @ rest"
        by (auto simp: startswith_iff)
      then have "c # cs = [] @ sub @ rest" by simp
      then show ?thesis by blast
    next
      case 2
      then obtain before after where "cs = before @ sub @ after"
        using Cons.IH by auto
      then have "c # cs = (c # before) @ sub @ after" by simp
      then show ?thesis by blast
    qed
  next
    assume "\<exists>before after. c # cs = before @ sub @ after"
    then obtain before after where eq: "c # cs = before @ sub @ after" by blast
    show "contains (c # cs) sub"
    proof (cases before)
      case Nil
      with eq have "startswith (c # cs) sub"
        by (auto simp: startswith_iff)
      then show ?thesis by simp
    next
      case (Cons b before')
      with eq have "cs = before' @ sub @ after" by simp
      then have "contains cs sub" using Cons.IH by blast
      then show ?thesis by simp
    qed
  qed
qed

lemma any_iff: "any bs \<longleftrightarrow> True \<in> set bs"
  by (induction bs) auto

lemma valid_filename_iff:
  "valid_filename p \<longleftrightarrow>
     (\<exists>ext \<in> set extensions. endswith p ext)
     \<and> \<not> contains p ''node_modules'' \<and> \<not> contains p ''package-lock''
     \<and> \<not> contains p ''README''"
  by (auto simp: valid_filename_def any_iff)

lemma valid_filename_examples:
  "valid_filename ''src/app.jsx''" "\<not> valid_filename ''src/node_modules/app.js''"
  "\<not> valid_filename ''package-lock.json''" "\<not> valid_filename ''README.md''"
  "\<not> valid_filename ''src/app.JSX''"
  by (simp_all add: valid_filename_def extensions_def endswith_def)

lemma rfind_from_append:
  "rfind_from c (xs @ ys) i found = rfind_from c ys (i + int (length xs)) (rfind_from c xs i found)"
  by (induction xs arbitrary: i found) (auto simp: algebra_simps)

lemma rfind_from_absent: "c \<notin> set xs \<Longrightarrow> rfind_from c xs i found = found"
  by (induction xs arbitrary: i) auto

lemma rfind_absent: "c \<notin> set s \<Longrightarrow> rfind s c = - 1"
  by (simp add: rfind_def rfind_from_absent)

lemma rfind_last: "c \<notin> set ys \<Longrightarrow> rfind (xs @ c # ys) c = int (length xs)"
  by (simp add: rfind_def rfind_from_append rfind_from_absent)

lemma splitext_loop_iff:
  "splitext_loop p i j \<longleftrightarrow> (\<exists>k. i \<le> k \<and> k < j \<and> take 1 (drop k p) \<noteq> ''.'')"
proof (induction p i j rule: splitext_loop.induct)
  case (1 p i j)
  show ?case
  proof (cases "i < j")
    case False
    then show ?thesis by (subst splitext_loop.simps) auto
  next
    case True
    show ?thesis
    proof (cases "take 1 (drop i p) \<noteq> ''.''")
      case notdot: True
      with True have "splitext_loop p i j" by (subst splitext_loop.simps) simp
      moreover from True notdot have "\<exists>k. i \<le> k \<and> k < j \<and> take 1 (drop k p) \<noteq> ''.''" by blast
      ultimately show ?thesis by simp
    next
      case dot: False
      with True have "splitext_loop p i j = splitext_loop p (i + 1) j"
        by (subst splitext_loop.simps) simp
      also have "\<dots> \<longleftrightarrow> (\<exists>k. i + 1 \<le> k \<and> k < j \<and> take 1 (drop k p) \<noteq> ''.'')"
        using 1 True dot by simp
      also have "\<dots> \<longleftrightarrow> (\<exists>k. i \<le> k \<and> k < j \<and> take 1 (drop k p) \<noteq> ''.'')"
      proof
        assume "\<exists>k. i + 1 \<le> k \<and> k < j \<and> take 1 (drop k p) \<noteq> ''.''"
        then show "\<exists>k. i \<le> k \<and> k < j \<and> take 1 (drop k p) \<noteq> ''.''"
          by (meson add_leD1)
      next
        assume "\<exists>k. i \<le> k \<and> k < j \<and> take 1 (drop k p) \<noteq> ''.''"
        then obtain k where k: "i \<le> k" "k < j" "take 1 (drop k p) \<noteq> ''.''" by blast
        with dot have "k \<noteq> i" by auto
        with k have "i + 1 \<le> k" by simp
        with k show "\<exists>k. i + 1 \<le> k \<and> k < j \<and> take 1 (drop k p) \<noteq> ''.''" by blast
      qed
      finally show ?thesis .
    qed
  qed
qed

lemma dropWhile_absent: "c \<notin> set xs \<Longrightarrow> dropWhile (\<lambda>x. x \<in> set [c]) xs = xs"
  by (cases xs) auto

lemma strip_no_dots: "CHR ''.'' \<notin> set e \<Longrightarrow> strip (CHR ''.'' # e) ''.'' = e"
proof -
  assume nodot: "CHR ''.'' \<notin> set e"
  then have "CHR ''.'' \<notin> set (rev e)" by simp
  then have "dropWhile (\<lambda>c. c \<in> set ''.'') (rev e) = rev e"
    by (rule dropWhile_absent)
  moreover have "dropWhile (\<lambda>c. c \<in> set ''.'') e = e"
    using nodot by (rule dropWhile_absent)
  ultimately show ?thesis by (simp add: strip_def)
qed

text \<open>splitext when the base name has a character other than a dot before the last dot\<close>
lemma splitext_ext:
  assumes dir: "dir = [] \<or> last dir = CHR ''/''"
    and base: "CHR ''/'' \<notin> set base" "\<exists>c \<in> set base. c \<noteq> CHR ''.''"
    and e: "CHR ''.'' \<notin> set e" "CHR ''/'' \<notin> set e"
  shows "splitext (dir @ base @ CHR ''.'' # e) = (dir @ base, CHR ''.'' # e)"
proof -
  let ?p = "dir @ base @ CHR ''.'' # e"
  have dot: "rfind ?p CHR ''.'' = int (length dir + length base)"
    using rfind_last [of "CHR ''.''" e "dir @ base"] e by simp
  have sep: "rfind ?p CHR ''/'' = int (length dir) - 1"
  proof (cases "dir = []")
    case True
    then show ?thesis using base e by (simp add: rfind_absent)
  next
    case False
    with dir obtain d where d: "dir = d @ [CHR ''/'']"
      by (metis append_butlast_last_id)
    have "rfind (d @ CHR ''/'' # (base @ CHR ''.'' # e)) CHR ''/'' = int (length d)"
      using base e by (intro rfind_last) auto
    then show ?thesis by (simp add: d)
  qed
  from base obtain k where k: "k < length base" "base ! k \<noteq> CHR ''.''"
    by (metis in_set_conv_nth)
  have "take 1 (drop (length dir + k) ?p) = [base ! k]"
    using k by (simp add: drop_append take_Suc_conv_app_nth hd_drop_conv_nth
        Cons_nth_drop_Suc [symmetric])
  with k have loop: "splitext_loop ?p (length dir) (length dir + length base)"
    unfolding splitext_loop_iff by (intro exI [of _ "length dir + k"]) auto
  have gt: "rfind ?p CHR ''.'' > rfind ?p CHR ''/''"
    by (simp add: dot sep)
  have n1: "nat (rfind ?p CHR ''/'' + 1) = length dir" by (simp add: sep)
  have n2: "nat (rfind ?p CHR ''.'') = length dir + length base" by (simp add: dot)
  show ?thesis
    unfolding splitext_def Let_def n1 n2 using gt loop by simp
qed

lemma splitext_bare:
  assumes dir: "dir = [] \<or> last dir = CHR ''/''"
    and e: "CHR ''.'' \<notin> set e" "CHR ''/'' \<notin> set e"
  shows "splitext (dir @ CHR ''.'' # e) = (dir @ CHR ''.'' # e, [])"
proof -
  let ?p = "dir @ CHR ''.'' # e"
  have dot: "rfind ?p CHR ''.'' = int (length dir)"
    using rfind_last [of "CHR ''.''" e dir] e by simp
  have "\<not> splitext_loop ?p (nat (rfind ?p CHR ''/'' + 1)) (length dir)"
  proof (cases "dir = []")
    case True
    then show ?thesis by (subst splitext_loop.simps) simp
  next
    case False
    with dir obtain d where d: "dir = d @ [CHR ''/'']"
      by (metis append_butlast_last_id)
    have "rfind (d @ CHR ''/'' # (CHR ''.'' # e)) CHR ''/'' = int (length d)"
      using e by (intro rfind_last) auto
    then have "nat (rfind ?p CHR ''/'' + 1) = length dir" by (simp add: d)
    then show ?thesis by (subst splitext_loop.simps) simp
  qed
  then show ?thesis
    unfolding splitext_def Let_def by (simp add: dot)
qed

lemma rfind_cases:
  "(c \<notin> set s \<and> rfind s c = - 1)
   \<or> (\<exists>xs ys. s = xs @ c # ys \<and> c \<notin> set ys \<and> rfind s c = int (length xs))"
proof (cases "c \<in> set s")
  case False
  then show ?thesis by (simp add: rfind_absent)
next
  case True
  then obtain xs ys where "s = xs @ c # ys" "c \<notin> set ys"
    by (meson split_list_last)
  then show ?thesis using rfind_last by blast
qed

lemma splitext_snd_shape:
  "snd (splitext p) = [] \<or> (\<exists>e. snd (splitext p) = CHR ''.'' # e \<and> CHR ''.'' \<notin> set e)"
proof -
  consider (none) "rfind p CHR ''.'' = - 1"
    | (some) xs ys where "p = xs @ CHR ''.'' # ys" "CHR ''.'' \<notin> set ys"
        "rfind p CHR ''.'' = int (length xs)"
    using rfind_cases [of "CHR ''.''" p] by blast
  then show ?thesis
  proof cases
    case none
    have "rfind p CHR ''/'' \<ge> - 1"
      using rfind_cases [of "CHR ''/''" p] by auto
    with none show ?thesis
      by (simp add: splitext_def Let_def)
  next
    case some
    then have "drop (nat (rfind p CHR ''.'')) p = CHR ''.'' # ys" by simp
    with some(2) show ?thesis
      by (auto simp: splitext_def Let_def)
  qed
qed

lemma strip_extension: "strip (snd (splitext p)) ''.'' = drop 1 (snd (splitext p))"
  using splitext_snd_shape [of p] by (auto simp: strip_no_dots) (simp add: strip_def)


lemma extension_shape:
  "ext \<in> set extensions \<Longrightarrow> \<exists>e. ext = CHR ''.'' # e \<and> CHR ''.'' \<notin> set e \<and> CHR ''/'' \<notin> set e"
  by (auto simp: extensions_def)

section \<open>Facts about the file system\<close>

lemma store_again:
  "store t a s = Inr t' \<Longrightarrow> store t' a s' = store t a s'"
proof (induction t a s arbitrary: t' rule: store.induct)
  case (1 r w b s)
  then show ?case by (auto split: if_splits)
next
  case (2 l w es s)
  then show ?case by simp
next
  case (3 r w b c cs s)
  then show ?case by simp
next
  case (4 l w es c cs s)
  show ?case
  proof (cases "map_of es c")
    case None
    with 4(2) have t': "t' = Dir l w (AList.update c (File True True s) es)" and cs: "cs = []" "w"
      by (auto split: if_splits)
    show ?thesis
      using None cs by (simp add: t' update_conv')
  next
    case (Some m)
    with 4(2) obtain m' where m': "store m cs s = Inr m'" and t': "t' = Dir l w (AList.update c m' es)"
      by (auto split: sum.splits)
    from 4(1) [OF Some m'] have "store m' cs s' = store m cs s'" .
    then show ?thesis
      using Some by (simp add: t' update_conv' split: sum.splits)
  qed
qed

lemma lookup_store:
  "store t a s = Inr t' \<Longrightarrow> \<exists>r w. lookup t' a = Some (File r w s)"
proof (induction t a s arbitrary: t' rule: store.induct)
  case (1 r w b s)
  then show ?case by (auto split: if_splits)
next
  case (2 l w es s)
  then show ?case by simp
next
  case (3 r w b c cs s)
  then show ?case by simp
next
  case (4 l w es c cs s)
  show ?case
  proof (cases "map_of es c")
    case None
    with 4(2) have t': "t' = Dir l w (AList.update c (File True True s) es)" and cs: "cs = []" "w"
      by (auto split: if_splits)
    show ?thesis
      using cs by (auto simp: t' update_conv')
  next
    case (Some m)
    with 4(2) obtain m' where m': "store m cs s = Inr m'" and t': "t' = Dir l w (AList.update c m' es)"
      by (auto split: sum.splits)
    from 4(1) [OF Some m'] obtain r' w' where "lookup m' cs = Some (File r' w' s)" by blast
    then show ?thesis
      by (simp add: t' update_conv')
  qed
qed

lemma store_succeeds_for_any_bytes:
  "store t a s = Inr t' \<Longrightarrow> \<exists>t''. store t a s' = Inr t''"
proof (induction t a s arbitrary: t' rule: store.induct)
  case (4 l w es c cs s)
  show ?case
  proof (cases "map_of es c")
    case None
    with 4(2) show ?thesis by (auto split: if_splits)
  next
    case (Some m)
    with 4(2) obtain m' where m': "store m cs s = Inr m'"
      by (auto split: sum.splits)
    from 4(1) [OF Some m'] obtain m'' where "store m cs s' = Inr m''" by blast
    then show ?thesis using Some by simp
  qed
qed (auto split: if_splits)

lemma write_bytes_again:
  assumes "write_bytes fs path s = Inr fs'"
  shows "write_bytes fs' path s' = write_bytes fs path s'"
proof -
  from assms obtain r where r: "store (root fs) (locate fs path) s = Inr r" and fs': "fs' = fs\<lparr>root := r\<rparr>"
    by (auto simp: write_bytes_def split: sum.splits)
  have "store r (locate fs path) s' = store (root fs) (locate fs path) s'"
    using r by (rule store_again)
  then show ?thesis
    by (simp add: write_bytes_def fs' split: sum.splits)
qed

lemma bytes_at_write_bytes:
  assumes "write_bytes fs path s = Inr fs'"
  shows "bytes_at fs' path = Some s"
proof -
  from assms obtain r where r: "store (root fs) (locate fs path) s = Inr r" and fs': "fs' = fs\<lparr>root := r\<rparr>"
    by (auto simp: write_bytes_def split: sum.splits)
  from lookup_store [OF r] obtain r' w' where "lookup r (locate fs path) = Some (File r' w' s)"
    by blast
  then show ?thesis
    by (simp add: bytes_at_def node_at_def fs')
qed

lemma write_bytes_succeeds_for_any_bytes:
  assumes "write_bytes fs path s = Inr fs'"
  shows "\<exists>fs''. write_bytes fs path s' = Inr fs''"
proof -
  from assms obtain r where r: "store (root fs) (locate fs path) s = Inr r"
    by (auto simp: write_bytes_def split: sum.splits)
  from store_succeeds_for_any_bytes [OF r] obtain r' where "store (root fs) (locate fs path) s' = Inr r'" ..
  then show ?thesis by (simp add: write_bytes_def)
qed

lemma open_w_write_bytes: "open_w enc fs path = Inr opened \<Longrightarrow> write_bytes fs path [] = Inr opened"
  by (auto simp: open_w_def split: option.splits)


text \<open>What the loop writes: the bytes of the blocks up to the first that cannot be encoded.\<close>

lemma write_loop_blocks:
  "write_loop enc bytes file_details =
     (bytes @ concat (List.map_filter (\<lambda>record. encode enc (spec_block record))
                (takeWhile (\<lambda>record. encode enc (spec_block record) \<noteq> None) file_details)),
      if list_all (\<lambda>record. encode enc (spec_block record) \<noteq> None) file_details then None
      else Some UnicodeEncodeError)"
proof (induction file_details arbitrary: bytes)
  case Nil
  show ?case by (simp add: List.map_filter_simps)
next
  case (Cons entry file_details)
  obtain path content where entry: "entry = (path, content)" by (cases entry)
  have block: "format_record path (strip (snd (splitext path)) ''.'') content = spec_block entry"
    by (simp add: entry spec_block_def format_record_def strip_extension)
  show ?case
  proof (cases "encode enc (spec_block entry)")
    case None
    then show ?thesis
      using block by (simp add: entry Let_def)
  next
    case (Some b)
    then show ?thesis
      using block Cons.IH [of "bytes @ b"] by (simp add: entry Let_def List.map_filter_simps)
  qed
qed

text \<open>What \<open>write_to_file\<close> does once the output file has been opened.\<close>

lemma write_to_file_opened:
  assumes "open_w enc fs output_file = Inr opened"
  shows "\<exists>fs'. write_bytes fs output_file (fst (write_loop enc [] file_details)) = Inr fs'
           \<and> write_to_file enc fs file_details output_file
               = (case snd (write_loop enc [] file_details) of None \<Rightarrow> Inr () | Some e \<Rightarrow> Inl e, fs')
           \<and> bytes_at fs' output_file = Some (fst (write_loop enc [] file_details))"
proof -
  let ?bytes = "fst (write_loop enc [] file_details)"
  from assms have op: "write_bytes fs output_file [] = Inr opened" by (rule open_w_write_bytes)
  from write_bytes_succeeds_for_any_bytes [OF op]
  obtain fs' where fs': "write_bytes fs output_file ?bytes = Inr fs'" ..
  have "write_bytes opened output_file ?bytes = Inr fs'"
    using write_bytes_again [OF op] fs' by simp
  then have "write_to_file enc fs file_details output_file
               = (case snd (write_loop enc [] file_details) of None \<Rightarrow> Inr () | Some e \<Rightarrow> Inl e, fs')"
    using assms by (simp add: write_to_file_def case_prod_beta)
  with fs' bytes_at_write_bytes [OF fs'] show ?thesis by blast
qed

lemma write_to_file_not_opened:
  "open_w enc fs output_file = Inl e \<Longrightarrow> write_to_file enc fs file_details output_file = (Inl e, fs)"
  by (simp add: write_to_file_def)

section \<open>Facts about the traversal\<close>

lemma gather_append:
  "gather enc (xs @ ys) acc
     = (case gather enc xs acc of Inl e \<Rightarrow> Inl e | Inr acc' \<Rightarrow> gather enc ys acc')"
  by (induction enc xs acc rule: gather.induct) (auto split: sum.splits)

lemma extract_files_gather:
  "extract_files enc rootdir files acc
     = gather enc (map (\<lambda>(file_name, f). (join rootdir file_name, f)) files) acc"
  by (induction enc rootdir files acc rule: extract_files.induct)
    (auto simp: Let_def split: sum.splits)

lemma extract_dirs_gather: "extract_dirs enc triples acc = gather enc (walked triples) acc"
proof (induction enc triples acc rule: extract_dirs.induct)
  case (1 enc acc)
  show ?case by (simp add: walked_def)
next
  case (2 enc rootdir dirs files rest acc)
  have "walked ((rootdir, dirs, files) # rest)
          = map (\<lambda>(file_name, f). (join rootdir file_name, f)) files @ walked rest"
    by (simp add: walked_def)
  then show ?case
    using 2 by (simp add: gather_append extract_files_gather split: sum.splits)
qed

lemma extract_file_details_gather:
  "extract_file_details enc fs folder_path =
     (case path_error enc folder_path of
        Some e \<Rightarrow> Inl e
      | None \<Rightarrow> gather enc (walked_files enc fs folder_path) [])"
  by (simp add: extract_file_details_def walked_files_def os_walk_def extract_dirs_gather
      split: option.splits)

lemma gather_none_selected:
  "\<forall>(p, f) \<in> set xs. \<not> valid_filename p \<Longrightarrow> gather enc xs acc = Inr acc"
  by (induction enc xs acc rule: gather.induct) auto


lemma gather_fails:
  assumes "(p, f) \<in> set xs" "valid_filename p" "get_file_content enc f = Inl e"
  shows "\<exists>p' f' e'. (p', f') \<in> set xs \<and> valid_filename p' \<and> get_file_content enc f' = Inl e'
           \<and> gather enc xs acc = Inl e'"
  using assms
proof (induction enc xs acc rule: gather.induct)
  case (1 enc acc)
  then show ?case by simp
next
  case (2 enc q g rest acc)
  show ?case
  proof (cases "valid_filename q")
    case False
    with 2 have "(p, f) \<in> set rest" by auto
    from 2(2) [OF False this 2(4,5)] False show ?thesis by auto
  next
    case True
    show ?thesis
    proof (cases "get_file_content enc g")
      case (Inl e')
      with True show ?thesis by auto
    next
      case (Inr content)
      with 2(3,5) have "(p, f) \<in> set rest" by auto
      from 2(1) [OF True Inr this 2(4,5)] True Inr show ?thesis by auto
    qed
  qed
qed

lemma wf_node_lookup: "wf_node t \<Longrightarrow> lookup t a = Some n \<Longrightarrow> wf_node n"
proof (induction t a arbitrary: n rule: lookup.induct)
  case (3 l w es c cs)
  then obtain m where m: "map_of es c = Some m" "lookup m cs = Some n"
    by (auto split: option.splits)
  then have "(c, m) \<in> set es" by (simp add: map_of_SomeD)
  with 3(2) have "wf_node m" by auto
  with 3(1) m show ?case by simp
qed auto

lemma join_prefix: "\<not> startswith b ''/'' \<Longrightarrow> \<exists>rest. join a b = a @ rest"
  by (simp add: join_def)

lemma wf_name_not_absolute: "b \<noteq> [] \<Longrightarrow> CHR ''/'' \<notin> set b \<Longrightarrow> \<not> startswith b ''/''"
  by (cases b) auto

lemma walked_concat: "walked (concat tss) = concat (map walked tss)"
  by (induction tss) (simp_all add: walked_def)

lemma walked_walk_prefix:
  "wf_node n \<Longrightarrow> (p, f) \<in> set (walked (walk topdir n)) \<Longrightarrow> \<exists>rest. p = topdir @ rest"
proof (induction topdir n arbitrary: p f rule: walk.induct)
  case (1 topdir r w b)
  then show ?case by (simp add: walked_def)
next
  case (2 topdir l w es)
  from 2(3) have l: l by (auto simp: walked_def split: if_splits)
  have split: "walked (walk topdir (Dir l w es))
      = map (\<lambda>(file_name, f). (join topdir file_name, f)) (filter (\<lambda>e. \<not> is_dir (snd e)) es)
        @ walked (concat (map (\<lambda>(dirname, sub). walk (join topdir dirname) sub)
                   (filter (\<lambda>e. is_dir (snd e)) es)))"
    using l by (simp add: walked_def)
  let ?here = "map (\<lambda>(file_name, f). (join topdir file_name, f)) (filter (\<lambda>e. \<not> is_dir (snd e)) es)"
  let ?below = "walked (concat (map (\<lambda>(dirname, sub). walk (join topdir dirname) sub)
                   (filter (\<lambda>e. is_dir (snd e)) es)))"
  from 2(3) have "(p, f) \<in> set ?here \<union> set ?below"
    unfolding split set_append .
  then consider (here) "(p, f) \<in> set ?here" | (below) "(p, f) \<in> set ?below"
    by blast
  then show ?case
  proof cases
    case here
    then obtain name where "(name, f) \<in> set es" "p = join topdir name" by auto
    with 2(2) have "name \<noteq> [] \<and> CHR ''/'' \<notin> set name" by fastforce
    then have "\<not> startswith name ''/''" by (simp add: wf_name_not_absolute)
    with \<open>p = join topdir name\<close> show ?thesis using join_prefix by blast
  next
    case below
    then obtain d where d: "d \<in> set (filter (\<lambda>e. is_dir (snd e)) es)"
      and pd: "(p, f) \<in> set (walked ((\<lambda>(dirname, sub). walk (join topdir dirname) sub) d))"
      unfolding walked_concat by auto
    obtain dirname sub where ds: "d = (dirname, sub)" by (cases d)
    from d pd have e: "(dirname, sub) \<in> set es" "is_dir (snd (dirname, sub))"
      and p: "(p, f) \<in> set (walked (walk (join topdir dirname) sub))"
      by (simp_all add: ds)
    from 2(2) e have wf: "wf_node sub" and "dirname \<noteq> [] \<and> CHR ''/'' \<notin> set dirname"
      by fastforce+
    then have name: "\<not> startswith dirname ''/''" by (simp add: wf_name_not_absolute)
    from e have mem: "(dirname, sub) \<in> set (filter (\<lambda>e. is_dir (snd e)) es)" by simp
    from 2(1) [OF l mem refl wf p] obtain rest where "p = join topdir dirname @ rest" by blast
    moreover from name obtain rest' where "join topdir dirname = topdir @ rest'"
      using join_prefix by blast
    ultimately show ?thesis by simp
  qed
qed

lemma walked_files_prefix:
  assumes "wf_node (root fs)" "(p, f) \<in> set (walked_files enc fs folder_path)"
  shows "\<exists>rest. p = folder_path @ rest"
proof -
  from assms(2) have ok: "path_error enc folder_path = None"
    by (auto simp: walked_files_def os_walk_def split: option.splits)
  show ?thesis
  proof (cases "node_at fs folder_path")
    case None
    with assms(2) ok show ?thesis by (simp add: walked_files_def os_walk_def walked_def)
  next
    case (Some n)
    with assms(1) have "wf_node n" by (auto simp: node_at_def intro: wf_node_lookup)
    moreover from Some assms(2) ok have "(p, f) \<in> set (walked (walk folder_path n))"
      by (simp add: walked_files_def os_walk_def)
    ultimately show ?thesis by (rule walked_walk_prefix)
  qed
qed

section \<open>Facts about a second traversal after the output file was written\<close>













section \<open>The claims\<close>

subsection \<open>C1\<close>

text \<open>
  Claim C1. For every path \<open>p\<close>, \<open>valid_filename p\<close> holds exactly when \<open>p\<close> ends with one
  of the eight extensions \<open>.jsx\<close>, \<open>.js\<close>, \<open>.ts\<close>, \<open>.tsx\<close>, \<open>.json\<close>, \<open>.html\<close>, \<open>.css\<close>,
  \<open>.scss\<close> (a suffix match on the characters as they are, so case-sensitive) and none of
  the words \<open>node_modules\<close>, \<open>package-lock\<close>, \<open>README\<close> occurs anywhere in \<open>p\<close>.
\<close>

theorem valid_filename_spec:
  "valid_filename p \<longleftrightarrow>
     (\<exists>ext \<in> {''.jsx'', ''.js'', ''.ts'', ''.tsx'', ''.json'', ''.html'', ''.css'', ''.scss''}.
        \<exists>stem. p = stem @ ext)
     \<and> \<not> (\<exists>before after. p = before @ ''node_modules'' @ after)
     \<and> \<not> (\<exists>before after. p = before @ ''package-lock'' @ after)
     \<and> \<not> (\<exists>before after. p = before @ ''README'' @ after)"
  unfolding valid_filename_iff endswith_iff contains_iff
  by (simp only: extensions_def list.set)

subsection \<open>C2\<close>



subsection \<open>C3\<close>

text \<open>
  Claim C3, as the code has it. A folder path that the operating system accepts but that
  names nothing, names something that is not a directory, or names a directory that
  cannot be listed, raises no error: \<open>os.walk\<close> is called without an error handler and
  drops the \<open>OSError\<close> of \<open>os.scandir\<close>, so \<open>extract_file_details\<close> returns the empty list.
  \<open>create_prompt_file\<close> then goes on as for a folder without files: it opens the output
  file and, when that succeeds, completes and leaves the output file with length zero;
  the only error the run can end with is that of opening the output file. Only a folder
  path that cannot be handed to the operating system at all, because it holds a NUL
  character or cannot be encoded, makes the collection fail: that exception is not an
  \<open>OSError\<close>, \<open>os.walk\<close> lets it pass, and the run ends with it before the output file is
  touched.
\<close>

theorem folder_that_cannot_be_walked:
  "(path_error enc folder_path = None \<and> \<not> listable fs folder_path \<longrightarrow>
       extract_file_details enc fs folder_path = Inr []
     \<and> create_prompt_file enc fs folder_path output_file = write_to_file enc fs [] output_file
     \<and> (\<forall>opened. open_w enc fs output_file = Inr opened \<longrightarrow>
          (\<exists>fs'. create_prompt_file enc fs folder_path output_file = (Inr (), fs')
                \<and> bytes_at fs' output_file = Some []))
     \<and> (\<forall>e'. open_w enc fs output_file = Inl e' \<longrightarrow>
          create_prompt_file enc fs folder_path output_file = (Inl e', fs)))
   \<and> (path_error enc folder_path = Some e \<longrightarrow>
       extract_file_details enc fs folder_path = Inl e
     \<and> create_prompt_file enc fs folder_path output_file = (Inl e, fs))"
proof (intro conjI impI)
  assume accepted: "path_error enc folder_path = None \<and> \<not> listable fs folder_path"
  have "os_walk enc fs folder_path = Inr []"
  proof (cases "node_at fs folder_path")
    case None
    with accepted show ?thesis by (simp add: os_walk_def)
  next
    case (Some n)
    with accepted show ?thesis
      by (cases n) (simp_all add: os_walk_def listable_def)
  qed
  then show empty_result: "extract_file_details enc fs folder_path = Inr []"
    by (simp add: extract_file_details_def)
  then show same: "create_prompt_file enc fs folder_path output_file
      = write_to_file enc fs [] output_file"
    by (simp add: create_prompt_file_def)
  show "\<forall>opened. open_w enc fs output_file = Inr opened \<longrightarrow>
          (\<exists>fs'. create_prompt_file enc fs folder_path output_file = (Inr (), fs')
                \<and> bytes_at fs' output_file = Some [])"
  proof (intro allI impI)
    fix opened
    assume "open_w enc fs output_file = Inr opened"
    from write_to_file_opened [OF this, of "[]"] same
    show "\<exists>fs'. create_prompt_file enc fs folder_path output_file = (Inr (), fs')
                \<and> bytes_at fs' output_file = Some []"
      by auto
  qed
  show "\<forall>e'. open_w enc fs output_file = Inl e' \<longrightarrow>
          create_prompt_file enc fs folder_path output_file = (Inl e', fs)"
  proof (intro allI impI)
    fix e'
    assume "open_w enc fs output_file = Inl e'"
    from write_to_file_not_opened [OF this] same
    show "create_prompt_file enc fs folder_path output_file = (Inl e', fs)" by simp
  qed
next
  assume "path_error enc folder_path = Some e"
  then show rejected: "extract_file_details enc fs folder_path = Inl e"
    by (simp add: extract_file_details_def os_walk_def)
  then show "create_prompt_file enc fs folder_path output_file = (Inl e, fs)"
    by (simp add: create_prompt_file_def)
qed

theorem folder_that_cannot_be_walked_witness:
  "\<not> listable example_fs ''locked''
   \<and> extract_file_details example_enc example_fs ''locked'' = Inr []
   \<and> create_prompt_file example_enc example_fs ''locked'' ''src'' = (Inl OSError, example_fs)
   \<and> create_prompt_file example_enc example_fs [CHR ''a'', CHR 0x00, CHR ''b''] ''prompt.md''
       = (Inl ValueError, example_fs)"
proof -
  have accepted: "path_error example_enc ''locked'' = None \<and> \<not> listable example_fs ''locked''"
    by (simp add: path_error_def example_enc_def listable_def node_at_def example_fs_def
        components_def)
  have closed: "open_w example_enc example_fs ''src'' = Inl OSError"
    by (simp add: open_w_def path_error_def example_enc_def write_bytes_def example_fs_def
        components_def)
  have nul: "path_error example_enc [CHR ''a'', CHR 0x00, CHR ''b''] = Some ValueError"
    by (simp add: path_error_def example_enc_def)
  note first = folder_that_cannot_be_walked
    [of example_enc "''locked''" example_fs "''src''", THEN conjunct1, rule_format, OF accepted]
  note second = folder_that_cannot_be_walked
    [of example_enc "[CHR ''a'', CHR 0x00, CHR ''b'']" example_fs "''prompt.md''" ValueError,
      THEN conjunct2, rule_format, OF nul]
  from first have "extract_file_details example_enc example_fs ''locked'' = Inr []" by blast
  moreover from first closed
  have "create_prompt_file example_enc example_fs ''locked'' ''src'' = (Inl OSError, example_fs)"
    by blast
  ultimately show ?thesis using accepted second by blast
qed

text \<open>
  Claim C3 as the specification states it fails: for a path that names nothing the
  collection returns the empty list instead of raising, and the run creates an output
  file that was not there before; a directory that cannot be listed is passed over in the
  same way.
\<close>

theorem missing_folder_counterexample:
  "path_error example_enc ''missing'' = None
   \<and> node_at example_fs ''missing'' = None
   \<and> extract_file_details example_enc example_fs ''missing'' = Inr []
   \<and> bytes_at example_fs ''prompt.md'' = None
   \<and> fst (create_prompt_file example_enc example_fs ''missing'' ''prompt.md'') = Inr ()
   \<and> bytes_at (snd (create_prompt_file example_enc example_fs ''missing'' ''prompt.md''))
        ''prompt.md'' = Some []
   \<and> node_at example_fs ''locked'' = Some (Dir False True [(''z.js'', File True True ''z'')])
   \<and> extract_file_details example_enc example_fs ''locked'' = Inr []"
  by (simp add: create_prompt_file_def extract_file_details_def os_walk_def path_error_def
      node_at_def bytes_at_def example_enc_def example_fs_def components_def write_to_file_def
      open_w_def write_bytes_def)

subsection \<open>C4\<close>

text \<open>
  Claim C4. When a file that the traversal comes by is selected and cannot be read as
  text, the collection ends with the error of such a file (the first one met), no record
  is kept, and \<open>create_prompt_file\<close> ends with that error before \<open>write_to_file\<close> is
  reached: the file system, and with it the output file, is as it was. The same holds for
  any error of the collection.
\<close>

theorem read_error_aborts_before_writing:
  "(extract_file_details enc fs folder_path = Inl e0 \<longrightarrow>
      create_prompt_file enc fs folder_path output_file = (Inl e0, fs))
   \<and> ((p, f) \<in> set (walked_files enc fs folder_path) \<and> valid_filename p
        \<and> get_file_content enc f = Inl e \<longrightarrow>
      (\<exists>p' f' e'. (p', f') \<in> set (walked_files enc fs folder_path) \<and> valid_filename p'
          \<and> get_file_content enc f' = Inl e'
          \<and> extract_file_details enc fs folder_path = Inl e'
          \<and> create_prompt_file enc fs folder_path output_file = (Inl e', fs)))"
proof (intro conjI impI)
  assume "extract_file_details enc fs folder_path = Inl e0"
  then show "create_prompt_file enc fs folder_path output_file = (Inl e0, fs)"
    by (simp add: create_prompt_file_def)
next
  assume walked_one: "(p, f) \<in> set (walked_files enc fs folder_path) \<and> valid_filename p
      \<and> get_file_content enc f = Inl e"
  then have accepted: "path_error enc folder_path = None"
    by (auto simp: walked_files_def os_walk_def split: option.splits)
  from walked_one obtain p' f' e' where first: "(p', f') \<in> set (walked_files enc fs folder_path)"
      "valid_filename p'" "get_file_content enc f' = Inl e'"
      "gather enc (walked_files enc fs folder_path) [] = Inl e'"
    using gather_fails by blast
  from first(4) accepted have "extract_file_details enc fs folder_path = Inl e'"
    by (simp add: extract_file_details_gather)
  moreover from this have "create_prompt_file enc fs folder_path output_file = (Inl e', fs)"
    by (simp add: create_prompt_file_def)
  ultimately show "\<exists>p' f' e'. (p', f') \<in> set (walked_files enc fs folder_path) \<and> valid_filename p'
          \<and> get_file_content enc f' = Inl e'
          \<and> extract_file_details enc fs folder_path = Inl e'
          \<and> create_prompt_file enc fs folder_path output_file = (Inl e', fs)"
    using first(1-3) by blast
qed

theorem read_error_witness:
  "(''src/bad.js'', File True True [CHR 0xFF]) \<in> set (walked_files example_enc example_fs ''src'')
   \<and> valid_filename ''src/bad.js''
   \<and> create_prompt_file example_enc example_fs ''src'' ''prompt.md''
       = (Inl UnicodeDecodeError, example_fs)"
proof -
  have files: "walked_files example_enc example_fs ''src'' =
      [(''src/x.ts'', File True True ''let a=1;''),
       (''src/package-lock.json'', File True True ''{}''),
       (''src/bad.js'', File True True [CHR 0xFF]),
       (''src/node_modules/y.js'', File True True ''y'')]"
    by (simp add: walked_files_def os_walk_def path_error_def walked_def node_at_def
        example_enc_def example_fs_def components_def join_def endswith_def)
  have sel: "valid_filename ''src/bad.js''"
    by (simp add: valid_filename_def extensions_def endswith_def)
  have others: "valid_filename ''src/x.ts''" "\<not> valid_filename ''src/package-lock.json''"
    "\<not> valid_filename ''src/node_modules/y.js''"
    by (simp_all add: valid_filename_def extensions_def endswith_def)
  have accepted: "path_error example_enc ''src'' = None"
    by (simp add: path_error_def example_enc_def)
  have dec: "decode example_enc ''let a=1;'' = Some ''let a=1;''"
    "decode example_enc [CHR 0xFF] = None"
    by (simp_all add: example_enc_def)
  have "extract_file_details example_enc example_fs ''src'' = Inl UnicodeDecodeError"
    by (simp add: extract_file_details_gather accepted files sel others dec)
  with read_error_aborts_before_writing
    [of example_enc example_fs "''src''" UnicodeDecodeError "''prompt.md''"] files sel
  show ?thesis by simp
qed

subsection \<open>C5\<close>

text \<open>
  Claim C5. The search for the excluded words is case-sensitive: the path
  \<open>docs/readme-notes.json\<close> is selected, and no path in which \<open>README\<close> occurs in capitals
  is selected, whatever its extension.
\<close>

theorem readme_case_sensitive:
  "valid_filename ''docs/readme-notes.json''
   \<and> (\<forall>before after. \<not> valid_filename (before @ ''README'' @ after))"
proof
  show "valid_filename ''docs/readme-notes.json''"
    by (simp add: valid_filename_def extensions_def endswith_def)
next
  show "\<forall>before after. \<not> valid_filename (before @ ''README'' @ after)"
    unfolding valid_filename_iff contains_iff by blast
qed

subsection \<open>C6\<close>

text \<open>
  Claim C6. What \<open>write_to_file\<close> does with a sequence of records is a function of that
  sequence, under the encoding of the process: from any two states of the file system
  and for any two output paths that can be opened for writing, two runs end alike and
  leave the same bytes. The function is given in full: a run completes when every block
  can be encoded and raises \<open>UnicodeEncodeError\<close> otherwise, and the bytes it leaves are
  the encoded blocks, one after the other, of the records before the first whose block
  cannot be encoded. Nothing of the file system, of the output path or of what the output
  file held before enters it.
\<close>

theorem written_bytes_are_a_function_of_the_records:
  assumes "open_w enc fs1 output1 = Inr opened1"
    and "open_w enc fs2 output2 = Inr opened2"
  shows "let outcome = (if list_all (\<lambda>r. encode enc (spec_block r) \<noteq> None) file_details
                        then Inr () else Inl UnicodeEncodeError);
             bytes = concat (List.map_filter (\<lambda>r. encode enc (spec_block r))
                       (takeWhile (\<lambda>r. encode enc (spec_block r) \<noteq> None) file_details))
         in \<exists>fs1' fs2'.
              write_to_file enc fs1 file_details output1 = (outcome, fs1')
            \<and> write_to_file enc fs2 file_details output2 = (outcome, fs2')
            \<and> bytes_at fs1' output1 = Some bytes
            \<and> bytes_at fs2' output2 = Some bytes"
proof -
  from write_to_file_opened [OF assms(1), of file_details] obtain fs1' where
    1: "write_to_file enc fs1 file_details output1
          = (case snd (write_loop enc [] file_details) of None \<Rightarrow> Inr () | Some e \<Rightarrow> Inl e, fs1')"
       "bytes_at fs1' output1 = Some (fst (write_loop enc [] file_details))"
    by blast
  from write_to_file_opened [OF assms(2), of file_details] obtain fs2' where
    2: "write_to_file enc fs2 file_details output2
          = (case snd (write_loop enc [] file_details) of None \<Rightarrow> Inr () | Some e \<Rightarrow> Inl e, fs2')"
       "bytes_at fs2' output2 = Some (fst (write_loop enc [] file_details))"
    by blast
  from 1 2 show ?thesis
    unfolding Let_def
    by (intro exI [of _ fs1'] exI [of _ fs2']) (simp add: write_loop_blocks)
qed

theorem written_bytes_witness:
  "fst (write_to_file example_enc example_fs
          [(''a/b.css'', ''body{}''), (''x.js'', [CHR 0xFF]), (''y.js'', ''z'')] ''prompt.md'')
     = Inl UnicodeEncodeError
   \<and> bytes_at (snd (write_to_file example_enc example_fs
          [(''a/b.css'', ''body{}''), (''x.js'', [CHR 0xFF]), (''y.js'', ''z'')] ''prompt.md''))
        ''prompt.md''
     = Some (''filename: `a/b.css`'' @ [newline] @ ''```css'' @ [newline] @ ''body{}```'' @ [newline])
   \<and> bytes_at (snd (write_to_file example_enc
          (example_fs\<lparr>root := Dir True True [(''out'', File False True ''old'')]\<rparr>)
          [(''a/b.css'', ''body{}''), (''x.js'', [CHR 0xFF]), (''y.js'', ''z'')] ''out'')) ''out''
     = Some (''filename: `a/b.css`'' @ [newline] @ ''```css'' @ [newline] @ ''body{}```'' @ [newline])"
proof -
  let ?fs2 = "example_fs\<lparr>root := Dir True True [(''out'', File False True ''old'')]\<rparr>"
  let ?records = "[(''a/b.css'', ''body{}''), (''x.js'', [CHR 0xFF]), (''y.js'', ''z'')]"
  have "\<exists>opened. open_w example_enc example_fs ''prompt.md'' = Inr opened"
    by (simp add: open_w_def path_error_def example_enc_def write_bytes_def example_fs_def
        components_def)
  then obtain opened1 where o1: "open_w example_enc example_fs ''prompt.md'' = Inr opened1" ..
  have "\<exists>opened. open_w example_enc ?fs2 ''out'' = Inr opened"
    by (simp add: open_w_def path_error_def example_enc_def write_bytes_def example_fs_def
        components_def)
  then obtain opened2 where o2: "open_w example_enc ?fs2 ''out'' = Inr opened2" ..
  have "splitext ''a/b.css'' = (''a/b'', ''.css'')"
    using splitext_ext [of "''a/''" "''b''" "''css''"] by simp
  then have first: "spec_block (''a/b.css'', ''body{}'')
      = ''filename: `a/b.css`'' @ [newline] @ ''```css'' @ [newline] @ ''body{}```'' @ [newline]"
    by (simp add: spec_block_def)
  have enc1: "encode example_enc (spec_block (''a/b.css'', ''body{}''))
      = Some (''filename: `a/b.css`'' @ [newline] @ ''```css'' @ [newline] @ ''body{}```'' @ [newline])"
    unfolding first by (simp add: example_enc_def)
  have enc2: "encode example_enc (spec_block (''x.js'', [CHR 0xFF])) = None"
    by (simp add: example_enc_def spec_block_def)
  from written_bytes_are_a_function_of_the_records [OF o1 o2, of ?records]
  show ?thesis
    by (auto simp: Let_def enc1 enc2 List.map_filter_simps)
qed

subsection \<open>C7\<close>




subsection \<open>C8\<close>

text \<open>
  Claim C8. For a folder path that the operating system accepts, when no file that the
  traversal of the folder comes by satisfies the selection predicate, as in an empty
  folder, and the output file can be opened for writing, then \<open>create_prompt_file\<close>
  completes without error and leaves the output file with length zero.
\<close>

theorem nothing_selected_gives_empty_output:
  assumes "path_error enc folder_path = None"
    and "\<forall>(p, f) \<in> set (walked_files enc fs folder_path). \<not> valid_filename p"
    and "open_w enc fs output_file = Inr opened"
  shows "\<exists>fs'. create_prompt_file enc fs folder_path output_file = (Inr (), fs')
           \<and> bytes_at fs' output_file = Some []"
proof -
  have "extract_file_details enc fs folder_path = Inr []"
    using assms(1,2) by (simp add: extract_file_details_gather gather_none_selected)
  then have "create_prompt_file enc fs folder_path output_file
      = write_to_file enc fs [] output_file"
    by (simp add: create_prompt_file_def)
  with write_to_file_opened [OF assms(3), of "[]"] show ?thesis by auto
qed

theorem empty_folder_witness:
  "node_at example_fs ''empty'' = Some (Dir True True [])
   \<and> fst (create_prompt_file example_enc example_fs ''empty'' ''prompt.md'') = Inr ()
   \<and> bytes_at (snd (create_prompt_file example_enc example_fs ''empty'' ''prompt.md''))
        ''prompt.md'' = Some []"
proof -
  have dir: "node_at example_fs ''empty'' = Some (Dir True True [])"
    by (simp add: node_at_def example_fs_def components_def)
  have accepted: "path_error example_enc ''empty'' = None"
    by (simp add: path_error_def example_enc_def)
  from dir accepted
  have none: "\<forall>(p, f) \<in> set (walked_files example_enc example_fs ''empty''). \<not> valid_filename p"
    by (simp add: walked_files_def os_walk_def walked_def)
  have "\<exists>opened. open_w example_enc example_fs ''prompt.md'' = Inr opened"
    by (simp add: open_w_def path_error_def example_enc_def write_bytes_def example_fs_def
        components_def)
  then obtain opened where opened: "open_w example_enc example_fs ''prompt.md'' = Inr opened" ..
  from nothing_selected_gives_empty_output [OF accepted none opened] dir show ?thesis by auto
qed

subsection \<open>C9\<close>

text \<open>
  Claim C9. The predicate is applied to the path joined from the folder path and the
  names below it: in a tree whose entry names are well formed, every path the traversal
  forms begins with the folder path as the user gave it. So when \<open>node_modules\<close>,
  \<open>package-lock\<close> or \<open>README\<close> occurs in the folder path itself, no file is selected and
  \<open>extract_file_details\<close> returns the empty list, whatever the tree holds (a string that
  cannot be handed to the operating system is no folder path: for it the traversal
  raises).
\<close>

theorem excluded_word_in_folder_path:
  assumes "wf_node (root fs)"
    and "word = ''node_modules'' \<or> word = ''package-lock'' \<or> word = ''README''"
  shows "(\<forall>(p, f) \<in> set (walked_files enc fs folder_path). startswith p folder_path)
       \<and> extract_file_details enc fs (before @ word @ after)
           = (case path_error enc (before @ word @ after) of None \<Rightarrow> Inr [] | Some e \<Rightarrow> Inl e)"
proof
  show "\<forall>(p, f) \<in> set (walked_files enc fs folder_path). startswith p folder_path"
    using walked_files_prefix [OF assms(1)] by (auto simp: startswith_iff)
next
  let ?folder = "before @ word @ after"
  have "\<not> valid_filename p" if "(p, f) \<in> set (walked_files enc fs ?folder)" for p f
  proof -
    from walked_files_prefix [OF assms(1) that] obtain rest where "p = ?folder @ rest" ..
    then have "p = before @ word @ (after @ rest)" by simp
    then have "contains p word" unfolding contains_iff by blast
    with assms(2) show ?thesis by (auto simp: valid_filename_iff)
  qed
  then have "\<forall>(p, f) \<in> set (walked_files enc fs ?folder). \<not> valid_filename p" by auto
  then show "extract_file_details enc fs ?folder
      = (case path_error enc ?folder of None \<Rightarrow> Inr [] | Some e \<Rightarrow> Inl e)"
    by (simp add: extract_file_details_gather gather_none_selected split: option.splits)
qed

theorem excluded_word_witness:
  "walked_files example_enc example_fs ''README-app''
     = [(''README-app/index.js'', File True True ''run()'')]
   \<and> startswith ''README-app/index.js'' ''README-app''
   \<and> extract_file_details example_enc example_fs ''README-app'' = Inr []"
proof -
  have wf: "wf_node (root example_fs)"
    by (simp add: example_fs_def)
  have word: "''README'' = ''node_modules'' \<or> ''README'' = ''package-lock'' \<or> ''README'' = ''README''"
    by simp
  have files: "walked_files example_enc example_fs ''README-app''
      = [(''README-app/index.js'', File True True ''run()'')]"
    by (simp add: walked_files_def os_walk_def path_error_def walked_def node_at_def
        example_enc_def example_fs_def components_def join_def endswith_def)
  have accepted: "path_error example_enc ''README-app'' = None"
    by (simp add: path_error_def example_enc_def)
  from excluded_word_in_folder_path [OF wf word, of example_enc "''README-app''" "[]" "''-app''"]
    files accepted
  show ?thesis by simp
qed

subsection \<open>C10\<close>

text \<open>
  Claim C10. A file whose name is exactly one of the eight extensions, in any directory:
  the suffix test succeeds, so the path is selected unless an excluded word occurs in it;
  \<open>splitext\<close> finds no extension in a name that starts with its only dot, so the tag is
  empty and the opening fence is followed at once by the newline.
\<close>

theorem bare_extension_selected_and_untagged:
  assumes "ext \<in> set extensions"
    and "dir = [] \<or> last dir = CHR ''/''"
  shows "endswith (dir @ ext) ext
    \<and> (valid_filename (dir @ ext) \<longleftrightarrow>
         \<not> contains (dir @ ext) ''node_modules'' \<and> \<not> contains (dir @ ext) ''package-lock''
         \<and> \<not> contains (dir @ ext) ''README'')
    \<and> splitext (dir @ ext) = (dir @ ext, [])
    \<and> strip (snd (splitext (dir @ ext))) ''.'' = []
    \<and> write_records [] [(dir @ ext, details)]
        = ''filename: `'' @ dir @ ext @ ''`'' @ [newline] @ ''```'' @ [newline]
            @ details @ ''```'' @ [newline]"
proof -
  from assms(1) obtain e where e: "ext = CHR ''.'' # e" "CHR ''.'' \<notin> set e" "CHR ''/'' \<notin> set e"
    using extension_shape by blast
  have ends: "endswith (dir @ ext) ext"
    by (auto simp: endswith_iff)
  have split: "splitext (dir @ ext) = (dir @ ext, [])"
    unfolding e(1) using assms(2) e(2,3) by (rule splitext_bare)
  have tag: "strip (snd (splitext (dir @ ext))) ''.'' = []"
    by (simp add: split strip_def)
  have sel: "valid_filename (dir @ ext) \<longleftrightarrow>
         \<not> contains (dir @ ext) ''node_modules'' \<and> \<not> contains (dir @ ext) ''package-lock''
         \<and> \<not> contains (dir @ ext) ''README''"
    unfolding valid_filename_iff using assms(1) ends by blast
  have "write_records [] [(dir @ ext, details)]
        = ''filename: `'' @ dir @ ext @ ''`'' @ [newline] @ ''```'' @ [newline]
            @ details @ ''```'' @ [newline]"
    by (simp add: tag format_record_def)
  with ends sel split tag show ?thesis by blast
qed

theorem bare_extension_witness:
  "valid_filename ''styles/.css''
   \<and> write_records [] [(''styles/.css'', ''body{}'')]
       = ''filename: `styles/.css`'' @ [newline] @ ''```'' @ [newline] @ ''body{}```'' @ [newline]"
proof -
  have ext: "''.css'' \<in> set extensions" by (simp add: extensions_def)
  have dir: "''styles/'' = [] \<or> last ''styles/'' = CHR ''/''" by simp
  have clean: "\<not> contains ''styles/.css'' ''node_modules''"
    "\<not> contains ''styles/.css'' ''package-lock''" "\<not> contains ''styles/.css'' ''README''"
    by simp_all
  note facts = bare_extension_selected_and_untagged [OF ext dir, of "''body{}''"]
  from facts clean have "valid_filename ''styles/.css''" by simp
  moreover from facts have "write_records [] [(''styles/'' @ ''.css'', ''body{}'')]
       = ''filename: `'' @ ''styles/'' @ ''.css'' @ ''`'' @ [newline] @ ''```'' @ [newline]
           @ ''body{}'' @ ''```'' @ [newline]"
    by (elim conjE)
  ultimately show ?thesis by simp
qed


end
